theory Spec2Isabelle
  imports Complex_Main
begin

section \<open>Data model\<close>

text \<open>
  Both limiters key their state by a user identifier (a Python \<open>str\<close>) and store
  clock readings obtained from \<open>time.time()\<close>. Every call of \<open>time.time()\<close> in the source
  is an explicit argument of the model, so a method that reads the clock twice takes two
  readings. Clock readings are Python floats, that is IEEE 754 doubles; they are modelled as
  the reals they denote. The arithmetic of the sliding-window limiter is taken exact. The
  subtractions of the throttling limiter, on which the spacing of its accepted messages
  rests, are rounded to the nearest double as the interpreter rounds them.
\<close>

type_synonym user_id = string

datatype py_error = IndexError

text \<open>
  \<open>class SlidingWindowRateLimiter\<close> (task_1.py): the two configuration fields and the
  dictionary \<open>user_messages\<close> from user to the deque of its timestamps. The annotation
  of \<open>window_size\<close> is \<open>int\<close>; it is only ever subtracted from and added to floats, so
  it is taken as a real, which covers the integers.
\<close>

record SlidingWindowRateLimiter =
  window_size :: real
  max_requests :: int
  user_messages :: "user_id \<rightharpoonup> real list"

text \<open>\<open>class ThrottlingRateLimiter\<close> (task_2.py).\<close>

record ThrottlingRateLimiter =
  min_interval :: real
  user_last_message :: "user_id \<rightharpoonup> real"

section \<open>Float subtraction\<close>

text \<open>
  A double has a significand of 53 bits and an exponent between \<open>-1022\<close> and \<open>1023\<close>.
  \<open>binade a\<close> is the exponent of the magnitude \<open>a\<close>, counted from \<open>-1022\<close>: the number of
  halvings that bring \<open>a * 2 ^ 1022\<close> below 2, at most 2045. The doubles of one binade are
  the multiples of \<open>ulp a\<close>; the subnormal numbers share the spacing of the lowest binade. A
  real is rounded to the nearest multiple, a tie to the even one, and the sign is kept, as
  IEEE 754 round-to-nearest-even does. Results beyond the largest double stay on the grid of
  the top binade instead of becoming infinite: differences of clock readings are nowhere
  near that range.
\<close>

fun halvings :: "nat \<Rightarrow> real \<Rightarrow> nat" where
  "halvings 0 x = 0"
| "halvings (Suc k) x = (if x < 2 then 0 else Suc (halvings k (x / 2)))"

definition binade :: "real \<Rightarrow> nat" where
  "binade a = halvings 2045 (a * 2 ^ 1022)"

definition ulp :: "real \<Rightarrow> real" where
  "ulp a = 2 ^ binade a / 2 ^ 1074"

definition round_half_even :: "real \<Rightarrow> int" where
  "round_half_even z =
     (let f = \<lfloor>z\<rfloor>; d = z - of_int f
      in if d < 1 / 2 then f else if 1 / 2 < d then f + 1 else if even f then f else f + 1)"

definition to_double :: "real \<Rightarrow> real" where
  "to_double x =
     (let a = \<bar>x\<bar>; r = ulp a * of_int (round_half_even (a / ulp a))
      in if x < 0 then - r else r)"

text \<open>Python's \<open>x - y\<close> on floats: the exact difference, rounded.\<close>

definition float_sub :: "real \<Rightarrow> real \<Rightarrow> real" where
  "float_sub x y = to_double (x - y)"

section \<open>SlidingWindowRateLimiter\<close>

definition sw_init :: "real \<Rightarrow> int \<Rightarrow> SlidingWindowRateLimiter" where
  "sw_init w m = \<lparr>window_size = w, max_requests = m, user_messages = Map.empty\<rparr>"

text \<open>
  \<open>_cleanup_window\<close>: returns at once for an unknown user; otherwise pops timestamps
  from the left while the leftmost one is below the cutoff, and deletes the entry when the
  deque is empty afterwards. The deque is mutated in place, so the dictionary sees the
  shortened deque.
\<close>

definition cleanup_window ::
  "SlidingWindowRateLimiter \<Rightarrow> user_id \<Rightarrow> real \<Rightarrow> SlidingWindowRateLimiter" where
  "cleanup_window self uid current_time =
     (case user_messages self uid of
        None \<Rightarrow> self
      | Some timestamps \<Rightarrow>
          (let cutoff = current_time - window_size self;
               timestamps' = dropWhile (\<lambda>x. x < cutoff) timestamps
           in if timestamps' = []
              then self\<lparr>user_messages := (user_messages self)(uid := None)\<rparr>
              else self\<lparr>user_messages := (user_messages self)(uid \<mapsto> timestamps')\<rparr>))"

definition sw_can_send_message ::
  "SlidingWindowRateLimiter \<Rightarrow> user_id \<Rightarrow> real \<Rightarrow> SlidingWindowRateLimiter \<times> bool" where
  "sw_can_send_message self uid current_time =
     (let self1 = cleanup_window self uid current_time
      in case user_messages self1 uid of
           None \<Rightarrow> (self1, True)
         | Some timestamps \<Rightarrow> (self1, int (length timestamps) < max_requests self1))"

text \<open>
  \<open>record_message\<close>: after the cleanup an absent user gets a fresh empty deque, stored in
  the dictionary before the length test. The lookup \<open>self.user_messages[user_id]\<close> that
  follows cannot fail, since the entry exists or has just been made; the append mutates the
  stored deque.
\<close>

definition sw_record_message ::
  "SlidingWindowRateLimiter \<Rightarrow> user_id \<Rightarrow> real \<Rightarrow> SlidingWindowRateLimiter \<times> bool" where
  "sw_record_message self uid current_time =
     (let self1 = cleanup_window self uid current_time;
          self2 = (if user_messages self1 uid = None
                   then self1\<lparr>user_messages := (user_messages self1)(uid \<mapsto> [])\<rparr>
                   else self1);
          timestamps = (case user_messages self2 uid of None \<Rightarrow> [] | Some ts \<Rightarrow> ts)
      in if int (length timestamps) < max_requests self2
         then (self2\<lparr>user_messages := (user_messages self2)(uid \<mapsto> timestamps @ [current_time])\<rparr>, True)
         else (self2, False))"

text \<open>
  \<open>time_until_next_allowed\<close>: \<open>timestamps[0]\<close> raises \<open>IndexError\<close> on an empty deque,
  which is a branch of the model.
\<close>

definition sw_time_until_next_allowed ::
  "SlidingWindowRateLimiter \<Rightarrow> user_id \<Rightarrow> real \<Rightarrow> SlidingWindowRateLimiter \<times> (py_error + real)" where
  "sw_time_until_next_allowed self uid current_time =
     (let self1 = cleanup_window self uid current_time
      in case user_messages self1 uid of
           None \<Rightarrow> (self1, Inr 0)
         | Some timestamps \<Rightarrow>
             if int (length timestamps) < max_requests self1 then (self1, Inr 0)
             else (case timestamps of
                     [] \<Rightarrow> (self1, Inl IndexError)
                   | earliest # _ \<Rightarrow>
                       (let allow_time = earliest + window_size self1;
                            wait = allow_time - current_time
                        in (self1, Inr (max wait 0)))))"

section \<open>ThrottlingRateLimiter\<close>

definition th_init :: "real \<Rightarrow> ThrottlingRateLimiter" where
  "th_init mi = \<lparr>min_interval = mi, user_last_message = Map.empty\<rparr>"

definition th_can_send_message ::
  "ThrottlingRateLimiter \<Rightarrow> user_id \<Rightarrow> real \<Rightarrow> ThrottlingRateLimiter \<times> bool" where
  "th_can_send_message self uid current_time =
     (case user_last_message self uid of
        None \<Rightarrow> (self, True)
      | Some last_time \<Rightarrow> (self, float_sub current_time last_time \<ge> min_interval self))"

text \<open>
  \<open>record_message\<close> reads the clock twice: once inside \<open>can_send_message\<close> (the reading
  that decides) and once more for the timestamp it stores.
\<close>

definition th_record_message ::
  "ThrottlingRateLimiter \<Rightarrow> user_id \<Rightarrow> real \<Rightarrow> real \<Rightarrow> ThrottlingRateLimiter \<times> bool" where
  "th_record_message self uid check_time store_time =
     (let (self1, ok) = th_can_send_message self uid check_time
      in if ok
         then (self1\<lparr>user_last_message := (user_last_message self1)(uid \<mapsto> store_time)\<rparr>, True)
         else (self1, False))"

definition th_time_until_next_allowed ::
  "ThrottlingRateLimiter \<Rightarrow> user_id \<Rightarrow> real \<Rightarrow> ThrottlingRateLimiter \<times> real" where
  "th_time_until_next_allowed self uid current_time =
     (case user_last_message self uid of
        None \<Rightarrow> (self, 0)
      | Some last_time \<Rightarrow>
          (let diff = float_sub current_time last_time;
               wait = float_sub (min_interval self) diff
           in (self, max wait 0)))"

section \<open>Call sequences\<close>

text \<open>
  A caller drives a limiter by a sequence of method calls; each call carries the clock
  readings it makes. Running a sequence from the constructor's state yields the reachable
  states and the log of results.
\<close>

datatype result = Bool bool | Float real | Raised py_error

datatype sw_call = SwCanSend user_id real | SwRecord user_id real | SwTimeUntil user_id real

fun sw_user :: "sw_call \<Rightarrow> user_id" where
  "sw_user (SwCanSend u t) = u"
| "sw_user (SwRecord u t) = u"
| "sw_user (SwTimeUntil u t) = u"

fun sw_time :: "sw_call \<Rightarrow> real" where
  "sw_time (SwCanSend u t) = t"
| "sw_time (SwRecord u t) = t"
| "sw_time (SwTimeUntil u t) = t"

fun sw_step :: "SlidingWindowRateLimiter \<Rightarrow> sw_call \<Rightarrow> SlidingWindowRateLimiter \<times> result" where
  "sw_step s (SwCanSend u t) = (let (s', b) = sw_can_send_message s u t in (s', Bool b))"
| "sw_step s (SwRecord u t) = (let (s', b) = sw_record_message s u t in (s', Bool b))"
| "sw_step s (SwTimeUntil u t) =
     (let (s', r) = sw_time_until_next_allowed s u t
      in (s', case r of Inl e \<Rightarrow> Raised e | Inr w \<Rightarrow> Float w))"

fun sw_run :: "SlidingWindowRateLimiter \<Rightarrow> sw_call list \<Rightarrow> SlidingWindowRateLimiter" where
  "sw_run s [] = s"
| "sw_run s (c # cs) = sw_run (fst (sw_step s c)) cs"

fun sw_log :: "SlidingWindowRateLimiter \<Rightarrow> sw_call list \<Rightarrow> (sw_call \<times> result) list" where
  "sw_log s [] = []"
| "sw_log s (c # cs) = (c, snd (sw_step s c)) # sw_log (fst (sw_step s c)) cs"

datatype th_call = ThCanSend user_id real | ThRecord user_id real real | ThTimeUntil user_id real

fun th_user :: "th_call \<Rightarrow> user_id" where
  "th_user (ThCanSend u t) = u"
| "th_user (ThRecord u t1 t2) = u"
| "th_user (ThTimeUntil u t) = u"

fun th_clock :: "th_call \<Rightarrow> real list" where
  "th_clock (ThCanSend u t) = [t]"
| "th_clock (ThRecord u t1 t2) = [t1, t2]"
| "th_clock (ThTimeUntil u t) = [t]"

fun th_step :: "ThrottlingRateLimiter \<Rightarrow> th_call \<Rightarrow> ThrottlingRateLimiter \<times> result" where
  "th_step s (ThCanSend u t) = (let (s', b) = th_can_send_message s u t in (s', Bool b))"
| "th_step s (ThRecord u t1 t2) = (let (s', b) = th_record_message s u t1 t2 in (s', Bool b))"
| "th_step s (ThTimeUntil u t) = (let (s', w) = th_time_until_next_allowed s u t in (s', Float w))"

fun th_run :: "ThrottlingRateLimiter \<Rightarrow> th_call list \<Rightarrow> ThrottlingRateLimiter" where
  "th_run s [] = s"
| "th_run s (c # cs) = th_run (fst (th_step s c)) cs"

fun th_log :: "ThrottlingRateLimiter \<Rightarrow> th_call list \<Rightarrow> (th_call \<times> result) list" where
  "th_log s [] = []"
| "th_log s (c # cs) = (c, snd (th_step s c)) # th_log (fst (th_step s c)) cs"

section \<open>Observations on logs\<close>




text \<open>A log entry of an admission question (\<open>can_send_message\<close>, \<open>record_message\<close>) answered true.\<close>

fun th_admits :: "th_call \<times> result \<Rightarrow> bool" where
  "th_admits (ThTimeUntil u t, r) = True"
| "th_admits (c, r) = (r = Bool True)"

section \<open>Rounding to the nearest double\<close>

lemma halvings_le: "halvings k x \<le> k"
  by (induction k arbitrary: x) auto

lemma halvings_lower: "0 < halvings k x \<Longrightarrow> 2 ^ halvings k x \<le> x"
proof (induction k arbitrary: x)
  case 0
  then show ?case by simp
next
  case (Suc k)
  from Suc.prems have x: "\<not> x < 2" by (auto split: if_splits)
  show ?case
  proof (cases "halvings k (x / 2) = 0")
    case True
    with x show ?thesis by simp
  next
    case False
    then have "0 < halvings k (x / 2)" by simp
    then have "2 ^ halvings k (x / 2) \<le> x / 2" by (rule Suc.IH)
    with x show ?thesis by simp
  qed
qed

lemma halvings_upper: "halvings k x < k \<Longrightarrow> x < 2 ^ Suc (halvings k x)"
proof (induction k arbitrary: x)
  case 0
  then show ?case by simp
next
  case (Suc k)
  show ?case
  proof (cases "x < 2")
    case True
    then show ?thesis by simp
  next
    case False
    with Suc.prems have "halvings k (x / 2) < k" by simp
    then have "x / 2 < 2 ^ Suc (halvings k (x / 2))" by (rule Suc.IH)
    with False show ?thesis by simp
  qed
qed

lemma halvings_mono: "x \<le> y \<Longrightarrow> halvings k x \<le> halvings k y"
proof (induction k arbitrary: x y)
  case 0
  then show ?case by simp
next
  case (Suc k)
  from Suc.prems have "x / 2 \<le> y / 2" by simp
  then have "halvings k (x / 2) \<le> halvings k (y / 2)" by (rule Suc.IH)
  with Suc.prems show ?case by auto
qed

lemma halvings_eq:
  assumes "n = 0 \<or> 2 ^ n \<le> x" and "x < 2 ^ Suc n" and "n \<le> k"
  shows "halvings k x = n"
proof (rule ccontr)
  assume ne: "halvings k x \<noteq> n"
  let ?m = "halvings k x"
  show False
  proof (cases "?m < n")
    case True
    with assms(3) have "?m < k" by simp
    then have "x < 2 ^ Suc ?m" by (rule halvings_upper)
    also from True have "(2::real) ^ Suc ?m \<le> 2 ^ n"
      by (intro power_increasing) simp_all
    finally have "x < 2 ^ n" .
    with assms(1) True show False by auto
  next
    case False
    with ne have gt: "n < ?m" by simp
    then have "2 ^ ?m \<le> x" by (intro halvings_lower) simp
    moreover from gt have "(2::real) ^ Suc n \<le> 2 ^ ?m"
      by (intro power_increasing) simp_all
    ultimately show False using assms(2) by simp
  qed
qed

lemma round_half_even_near: "\<bar>z - of_int (round_half_even z)\<bar> \<le> 1 / 2"
  unfolding round_half_even_def Let_def by (auto simp: abs_if) linarith+

lemma round_half_even_eqI:
  assumes "\<bar>z - of_int m\<bar> < 1 / 2"
  shows "round_half_even z = m"
proof -
  from round_half_even_near [of z] assms
  have "\<bar>(of_int (round_half_even z) :: real) - of_int m\<bar> < 1" by linarith
  then have "\<bar>of_int (round_half_even z - m) :: real\<bar> < 1" by simp
  then have "\<bar>round_half_even z - m\<bar> < 1" by linarith
  then show ?thesis by simp
qed

lemma round_half_even_of_int [simp]: "round_half_even (of_int k) = k"
  by (rule round_half_even_eqI) simp

lemma round_half_even_mono:
  assumes "x \<le> y"
  shows "round_half_even x \<le> round_half_even y"
proof (rule ccontr)
  assume "\<not> round_half_even x \<le> round_half_even y"
  then have gt: "round_half_even y + 1 \<le> round_half_even x" by simp
  then have "(of_int (round_half_even y) :: real) + 1 \<le> of_int (round_half_even x)"
    by (metis of_int_1 of_int_add of_int_le_iff)
  with round_half_even_near [of x] round_half_even_near [of y] assms
  have xy: "x = y" and tie: "x - of_int (round_half_even x) = - 1 / 2" by linarith+
  with gt show False by simp
qed

lemma binade_le: "binade a \<le> 2045"
  unfolding binade_def by (rule halvings_le)

lemma ulp_pos: "0 < ulp a"
  by (simp add: ulp_def)

lemma to_double_nonneg: "0 \<le> x \<Longrightarrow> 0 \<le> to_double x"
proof -
  assume x: "0 \<le> x"
  then have "0 \<le> \<bar>x\<bar> / ulp \<bar>x\<bar>" using ulp_pos [of "\<bar>x\<bar>"] by simp
  then have "round_half_even 0 \<le> round_half_even (\<bar>x\<bar> / ulp \<bar>x\<bar>)"
    by (rule round_half_even_mono)
  moreover have "round_half_even 0 = 0" using round_half_even_of_int [of 0] by simp
  ultimately have "0 \<le> round_half_even (\<bar>x\<bar> / ulp \<bar>x\<bar>)" by simp
  with x ulp_pos [of "\<bar>x\<bar>"] show ?thesis
    by (simp add: to_double_def Let_def)
qed

lemma to_double_minus: "to_double (- x) = - to_double x"
proof (cases "x = 0")
  case True
  have "round_half_even 0 = 0" using round_half_even_of_int [of 0] by simp
  with True show ?thesis by (simp add: to_double_def Let_def)
next
  case False
  then show ?thesis by (auto simp: to_double_def Let_def)
qed

lemma to_double_nonpos: "x \<le> 0 \<Longrightarrow> to_double x \<le> 0"
  using to_double_nonneg [of "- x"] by (simp add: to_double_minus)

text \<open>Monotonicity on the non-negative reals: within a binade, and across binades.\<close>

lemma to_double_mono_nonneg:
  assumes "0 \<le> a" and "a \<le> b"
  shows "to_double a \<le> to_double b"
proof -
  define P :: real where "P = 2 ^ 1022"
  have P: "0 < P" by (simp add: P_def)
  have Q: "(2::real) ^ 1074 = P * 2 ^ 52" unfolding P_def by (simp flip: power_add)
  let ?na = "binade a" and ?nb = "binade b"
  have ulp_a: "ulp a = 2 ^ ?na / (P * 2 ^ 52)" unfolding ulp_def Q ..
  have ulp_b: "ulp b = 2 ^ ?nb / (P * 2 ^ 52)" unfolding ulp_def Q ..
  from assms have b0: "0 \<le> b" by simp
  have ta: "to_double a = ulp a * of_int (round_half_even (a / ulp a))"
    using assms(1) by (simp add: to_double_def Let_def)
  have tb: "to_double b = ulp b * of_int (round_half_even (b / ulp b))"
    using b0 by (simp add: to_double_def Let_def)
  from assms(2) P have "a * P \<le> b * P" by simp
  then have le: "?na \<le> ?nb" unfolding binade_def P_def by (rule halvings_mono)
  show ?thesis
  proof (cases "?na = ?nb")
    case True
    then have u: "ulp a = ulp b" unfolding ulp_def by (rule arg_cong)
    from assms(2) ulp_pos [of b] have "a / ulp b \<le> b / ulp b"
      by (simp add: divide_right_mono)
    then have "round_half_even (a / ulp b) \<le> round_half_even (b / ulp b)"
      by (rule round_half_even_mono)
    with ulp_pos [of b] show ?thesis unfolding ta tb u by simp
  next
    case False
    with le have lt: "?na < ?nb" by simp
    with binade_le [of b] have "halvings 2045 (a * 2 ^ 1022) < 2045"
      unfolding binade_def by simp
    then have "a * 2 ^ 1022 < 2 ^ Suc (halvings 2045 (a * 2 ^ 1022))" by (rule halvings_upper)
    then have ua: "a * P < 2 * 2 ^ ?na" unfolding binade_def P_def by simp
    from lt have "0 < halvings 2045 (b * 2 ^ 1022)" unfolding binade_def by simp
    then have "2 ^ halvings 2045 (b * 2 ^ 1022) \<le> b * 2 ^ 1022" by (rule halvings_lower)
    then have lb: "2 ^ ?nb \<le> b * P" unfolding binade_def P_def by simp
    have "a / ulp a = a * P * 2 ^ 52 / 2 ^ ?na" by (simp add: ulp_a)
    also from ua have "\<dots> \<le> 2 * 2 ^ ?na * 2 ^ 52 / 2 ^ ?na"
      by (intro divide_right_mono mult_right_mono) simp_all
    also have "\<dots> = of_int (2 ^ 53)" by simp
    finally have "round_half_even (a / ulp a) \<le> round_half_even (of_int (2 ^ 53))"
      by (rule round_half_even_mono)
    then have "round_half_even (a / ulp a) \<le> 2 ^ 53" by (simp only: round_half_even_of_int)
    then have "(of_int (round_half_even (a / ulp a)) :: real) \<le> 2 ^ 53"
      by (metis of_int_le_iff of_int_numeral of_int_power)
    with ulp_pos [of a] have "to_double a \<le> ulp a * 2 ^ 53"
      unfolding ta by (intro mult_left_mono) simp_all
    also have "\<dots> = 2 * 2 ^ ?na / P" using P by (simp add: ulp_a)
    finally have A: "to_double a \<le> 2 * 2 ^ ?na / P" .
    have "of_int (2 ^ 52) = 2 ^ ?nb * 2 ^ 52 / (2::real) ^ ?nb" by simp
    also from lb have "\<dots> \<le> b * P * 2 ^ 52 / 2 ^ ?nb"
      by (intro divide_right_mono mult_right_mono) simp_all
    also have "\<dots> = b / ulp b" by (simp add: ulp_b)
    finally have "round_half_even (of_int (2 ^ 52)) \<le> round_half_even (b / ulp b)"
      by (rule round_half_even_mono)
    then have "2 ^ 52 \<le> round_half_even (b / ulp b)" by (simp only: round_half_even_of_int)
    then have "(2::real) ^ 52 \<le> of_int (round_half_even (b / ulp b))"
      by (metis of_int_le_iff of_int_numeral of_int_power)
    with ulp_pos [of b] have "ulp b * 2 ^ 52 \<le> to_double b"
      unfolding tb by (intro mult_left_mono) simp_all
    moreover have "ulp b * 2 ^ 52 = 2 ^ ?nb / P" using P by (simp add: ulp_b)
    ultimately have B: "2 ^ ?nb / P \<le> to_double b" by simp
    from lt have "(2::real) ^ Suc ?na \<le> 2 ^ ?nb" by (intro power_increasing) simp_all
    then have "2 * 2 ^ ?na / P \<le> 2 ^ ?nb / P" using P by (simp add: divide_right_mono)
    with A B show ?thesis by linarith
  qed
qed

lemma to_double_mono:
  assumes "x \<le> y"
  shows "to_double x \<le> to_double y"
proof (cases "0 \<le> x")
  case True
  from True assms show ?thesis by (rule to_double_mono_nonneg)
next
  case False
  show ?thesis
  proof (cases "0 \<le> y")
    case True
    from False have "to_double x \<le> 0" by (intro to_double_nonpos) simp
    also from True have "0 \<le> to_double y" by (rule to_double_nonneg)
    finally show ?thesis .
  next
    case y: False
    with assms have "to_double (- y) \<le> to_double (- x)"
      by (intro to_double_mono_nonneg) simp_all
    then show ?thesis by (simp add: to_double_minus)
  qed
qed


text \<open>Computing a rounding: the binade is given by two bounds, the result by its distance.\<close>

lemma to_double_eqI:
  assumes "0 \<le> a" and "n \<le> 2045"
    and "n = 0 \<or> 2 ^ n \<le> a * 2 ^ 1022" and "a * 2 ^ 1022 < 2 ^ Suc n"
    and "\<bar>a * 2 ^ 1074 / 2 ^ n - of_int m\<bar> < 1 / 2"
  shows "to_double a = of_int m * 2 ^ n / 2 ^ 1074"
proof -
  have n: "binade a = n" unfolding binade_def using assms(3,4,2) by (rule halvings_eq)
  have u: "ulp a = 2 ^ n / 2 ^ 1074" unfolding ulp_def n ..
  have "a / ulp a = a * 2 ^ 1074 / 2 ^ n" unfolding u by simp
  with assms(5) have r: "round_half_even (a / ulp a) = m" by (intro round_half_even_eqI) simp
  from assms(1) have "to_double a = ulp a * of_int (round_half_even (a / ulp a))"
    by (simp add: to_double_def Let_def)
  also have "\<dots> = ulp a * of_int m" by (simp only: r)
  also have "\<dots> = of_int m * 2 ^ n / 2 ^ 1074" by (simp add: u)
  finally show ?thesis .
qed

lemma to_double_0 [simp]: "to_double 0 = 0"
  using to_double_eqI [of 0 0 0] by simp

lemma binade_1: "binade 1 = 1022"
  unfolding binade_def by (rule halvings_eq) simp_all

text \<open>Integers below \<open>2 ^ 53\<close> in magnitude are doubles.\<close>

lemma to_double_of_nat:
  assumes "real k < 2 ^ 53"
  shows "to_double (real k) = real k"
proof (cases "k = 0")
  case True
  then show ?thesis by simp
next
  case False
  define P :: real where "P = 2 ^ 1022"
  have P: "0 < P" by (simp add: P_def)
  have Q: "(2::real) ^ 1075 = 2 ^ 53 * P" unfolding P_def by (simp flip: power_add)
  let ?n = "binade (real k)"
  from False have "1 \<le> real k" by simp
  then have "1 * P \<le> real k * P" using P by (intro mult_right_mono) simp_all
  then have "halvings 2045 (1 * 2 ^ 1022) \<le> halvings 2045 (real k * 2 ^ 1022)"
    unfolding P_def by (rule halvings_mono)
  then have lo: "1022 \<le> ?n" using binade_1 unfolding binade_def by simp
  then have "0 < halvings 2045 (real k * 2 ^ 1022)" unfolding binade_def by simp
  then have "2 ^ halvings 2045 (real k * 2 ^ 1022) \<le> real k * 2 ^ 1022" by (rule halvings_lower)
  then have "2 ^ ?n \<le> real k * P" unfolding binade_def P_def .
  also from assms P have "\<dots> < 2 ^ 53 * P" by simp
  finally have "(2::real) ^ ?n < 2 ^ 1075" unfolding Q .
  from power_less_imp_less_exp [OF _ this] have "?n < 1075" by simp
  then have hi: "?n \<le> 1074" by simp
  then have d: "(2::real) ^ 1074 / 2 ^ ?n = 2 ^ (1074 - ?n)" by (simp add: power_diff)
  have "real k / ulp (real k) = real k * (2 ^ 1074 / 2 ^ ?n)" unfolding ulp_def by simp
  also have "\<dots> = of_int (int k * 2 ^ (1074 - ?n))" unfolding d by simp
  finally have "round_half_even (real k / ulp (real k)) = int k * 2 ^ (1074 - ?n)"
    by (simp only: round_half_even_of_int)
  then have "to_double (real k) = ulp (real k) * (real k * 2 ^ (1074 - ?n))"
    by (simp add: to_double_def Let_def)
  also have "\<dots> = real k * (2 ^ ?n / 2 ^ 1074 * (2 ^ 1074 / 2 ^ ?n))"
    unfolding ulp_def d by simp
  also have "\<dots> = real k" by simp
  finally show ?thesis .
qed

lemma to_double_int:
  assumes "x \<in> \<int>" and "\<bar>x\<bar> < 2 ^ 53"
  shows "to_double x = x"
proof -
  from assms(1) obtain k where k: "\<bar>x\<bar> = real k"
    by (metis Ints_abs Ints_nonzero_abs_ge1 abs_ge_zero of_int_of_nat_eq Ints_cases zero_le_imp_eq_int of_int_0_le_iff)
  with assms(2) have "to_double \<bar>x\<bar> = \<bar>x\<bar>" by (simp add: to_double_of_nat)
  then show ?thesis
    by (cases "0 \<le> x") (simp_all add: abs_if to_double_minus split: if_splits)
qed

text \<open>Every double is an integer multiple of \<open>2 ^ - 1074\<close>.\<close>

lemma to_double_grid: "\<exists>j::int. to_double x = of_int j / 2 ^ 1074"
proof -
  let ?r = "round_half_even (\<bar>x\<bar> / ulp \<bar>x\<bar>)"
  have "to_double x = of_int ((if x < 0 then - 1 else 1) * 2 ^ binade \<bar>x\<bar> * ?r) / 2 ^ 1074"
    by (simp add: to_double_def Let_def ulp_def)
  then show ?thesis by blast
qed

text \<open>The difference of two doubles does not round to zero unless it is zero.\<close>

lemma to_double_diff_pos:
  assumes "x = of_int i / 2 ^ 1074" and "y = of_int j / 2 ^ 1074" and "y < x"
  shows "0 < to_double (x - y)"
proof -
  from assms(3) have "(of_int j :: real) < of_int i" unfolding assms(1,2)
    by (simp add: divide_less_cancel)
  then have "j + 1 \<le> i" by simp
  then have "(of_int j :: real) + 1 \<le> of_int i"
    by (metis of_int_1 of_int_add of_int_le_iff)
  then have "1 / 2 ^ 1074 \<le> x - y" unfolding assms(1,2)
    by (simp add: diff_divide_distrib [symmetric] divide_right_mono)
  then have "to_double (1 / 2 ^ 1074) \<le> to_double (x - y)" by (rule to_double_mono)
  moreover have "to_double (1 / 2 ^ 1074) = 1 / 2 ^ 1074"
    using to_double_eqI [of "1 / 2 ^ 1074" 0 1] by simp
  ultimately show ?thesis by simp
qed

lemma float_sub_nonneg: "y \<le> x \<Longrightarrow> 0 \<le> float_sub x y"
  unfolding float_sub_def by (intro to_double_nonneg) simp


lemma float_sub_int:
  "x - y \<in> \<int> \<Longrightarrow> \<bar>x - y\<bar> < 2 ^ 53 \<Longrightarrow> float_sub x y = x - y"
  unfolding float_sub_def by (rule to_double_int)

section \<open>Basic facts about the cleanup\<close>

lemma cleanup_window_entry:
  "user_messages (cleanup_window s u t) u =
     (case user_messages s u of
        None \<Rightarrow> None
      | Some ts \<Rightarrow>
          (if dropWhile (\<lambda>x. x < t - window_size s) ts = [] then None
           else Some (dropWhile (\<lambda>x. x < t - window_size s) ts)))"
  by (simp add: cleanup_window_def Let_def split: option.splits)

lemma cleanup_window_config [simp]:
  "window_size (cleanup_window s u t) = window_size s"
  "max_requests (cleanup_window s u t) = max_requests s"
  "SlidingWindowRateLimiter.more (cleanup_window s u t) = SlidingWindowRateLimiter.more s"
  by (simp_all add: cleanup_window_def Let_def split: option.splits)

lemma cleanup_window_other [simp]:
  "v \<noteq> u \<Longrightarrow> user_messages (cleanup_window s u t) v = user_messages s v"
  by (simp add: cleanup_window_def Let_def split: option.splits)

lemma cleanup_window_nonempty [simp]:
  "user_messages (cleanup_window s u t) u \<noteq> Some []"
  by (simp add: cleanup_window_entry split: option.splits)

lemma cleanup_window_idem_entry:
  "user_messages (cleanup_window (cleanup_window s u t) u t) u =
   user_messages (cleanup_window s u t) u"
  by (simp add: cleanup_window_entry split: option.splits)

lemma cleanup_window_idem [simp]:
  "cleanup_window (cleanup_window s u t) u t = cleanup_window s u t"
proof (intro SlidingWindowRateLimiter.equality)
  show "user_messages (cleanup_window (cleanup_window s u t) u t) =
        user_messages (cleanup_window s u t)"
  proof (rule ext)
    fix v
    show "user_messages (cleanup_window (cleanup_window s u t) u t) v =
          user_messages (cleanup_window s u t) v"
      by (cases "v = u") (simp_all add: cleanup_window_idem_entry)
  qed
qed simp_all

text \<open>The leftmost timestamp that survives the cleanup is not below the cutoff.\<close>

lemma cleanup_window_head:
  assumes "user_messages (cleanup_window s u t) u = Some (e # es)"
  shows "t - window_size s \<le> e"
proof -
  from assms obtain ts where
    "dropWhile (\<lambda>x. x < t - window_size s) ts = e # es"
    by (auto simp: cleanup_window_entry split: option.splits if_splits)
  from hd_dropWhile [of "\<lambda>x. x < t - window_size s" ts] this show ?thesis by simp
qed

section \<open>Results of the operations in terms of the cleanup\<close>

lemma sw_can_send_message_fst [simp]:
  "fst (sw_can_send_message s u t) = cleanup_window s u t"
  by (simp add: sw_can_send_message_def Let_def split: option.splits)

lemma sw_can_send_message_snd:
  "snd (sw_can_send_message s u t) =
     (case user_messages (cleanup_window s u t) u of
        None \<Rightarrow> True
      | Some ts \<Rightarrow> int (length ts) < max_requests s)"
  by (simp add: sw_can_send_message_def Let_def split: option.splits)

lemma sw_record_message_snd:
  "snd (sw_record_message s u t) =
     (case user_messages (cleanup_window s u t) u of
        None \<Rightarrow> 0 < max_requests s
      | Some ts \<Rightarrow> int (length ts) < max_requests s)"
  by (simp add: sw_record_message_def Let_def split: option.splits)

lemma sw_time_until_next_allowed_fst [simp]:
  "fst (sw_time_until_next_allowed s u t) = cleanup_window s u t"
  by (simp add: sw_time_until_next_allowed_def Let_def split: option.splits list.splits)

lemma sw_time_until_next_allowed_snd:
  "snd (sw_time_until_next_allowed s u t) =
     (case user_messages (cleanup_window s u t) u of
        None \<Rightarrow> Inr 0
      | Some ts \<Rightarrow>
          if int (length ts) < max_requests s then Inr 0
          else (case ts of [] \<Rightarrow> Inl IndexError
                | e # es \<Rightarrow> Inr (max (e + window_size s - t) 0)))"
  by (simp add: sw_time_until_next_allowed_def Let_def split: option.splits list.splits)

text \<open>
  The \<open>IndexError\<close> branch is never taken: an entry that survives the cleanup is not empty.
\<close>

lemma sw_time_until_next_allowed_no_error:
  "\<exists>w. snd (sw_time_until_next_allowed s u t) = Inr w \<and> 0 \<le> w"
  using cleanup_window_nonempty [of s u t]
  by (auto simp: sw_time_until_next_allowed_snd split: option.splits list.splits)

lemma sw_record_message_config [simp]:
  "window_size (fst (sw_record_message s u t)) = window_size s"
  "max_requests (fst (sw_record_message s u t)) = max_requests s"
  "SlidingWindowRateLimiter.more (fst (sw_record_message s u t)) = SlidingWindowRateLimiter.more s"
  by (simp_all add: sw_record_message_def Let_def)

lemma sw_record_message_other [simp]:
  "v \<noteq> u \<Longrightarrow> user_messages (fst (sw_record_message s u t)) v = user_messages s v"
  by (simp add: sw_record_message_def Let_def)

lemma sw_record_message_entry:
  "user_messages (fst (sw_record_message s u t)) u =
     Some (case user_messages (cleanup_window s u t) u of
             None \<Rightarrow> if 0 < max_requests s then [t] else []
           | Some ts \<Rightarrow> if int (length ts) < max_requests s then ts @ [t] else ts)"
  by (simp add: sw_record_message_def Let_def split: option.splits)

lemma sw_step_fst [simp]:
  "fst (sw_step s (SwCanSend u t)) = cleanup_window s u t"
  "fst (sw_step s (SwRecord u t)) = fst (sw_record_message s u t)"
  "fst (sw_step s (SwTimeUntil u t)) = cleanup_window s u t"
  by (simp_all add: split_def Let_def)

lemma sw_step_snd [simp]:
  "snd (sw_step s (SwCanSend u t)) = Bool (snd (sw_can_send_message s u t))"
  "snd (sw_step s (SwRecord u t)) = Bool (snd (sw_record_message s u t))"
  "snd (sw_step s (SwTimeUntil u t)) =
     (case snd (sw_time_until_next_allowed s u t) of Inl e \<Rightarrow> Raised e | Inr w \<Rightarrow> Float w)"
  by (simp_all add: split_def Let_def)

declare sw_step.simps [simp del]

lemma sw_step_config [simp]:
  "window_size (fst (sw_step s c)) = window_size s"
  "max_requests (fst (sw_step s c)) = max_requests s"
  by (cases c; simp)+

lemma sw_run_config [simp]:
  "window_size (sw_run s cs) = window_size s"
  "max_requests (sw_run s cs) = max_requests s"
  by (induction cs arbitrary: s) simp_all

section \<open>Results of the throttling operations\<close>

lemma th_can_send_message_fst [simp]: "fst (th_can_send_message s u t) = s"
  by (simp add: th_can_send_message_def split: option.splits)

lemma th_can_send_message_snd:
  "snd (th_can_send_message s u t) =
     (case user_last_message s u of
        None \<Rightarrow> True
      | Some l \<Rightarrow> min_interval s \<le> float_sub t l)"
  by (simp add: th_can_send_message_def split: option.splits)

lemma th_time_until_next_allowed_fst [simp]: "fst (th_time_until_next_allowed s u t) = s"
  by (simp add: th_time_until_next_allowed_def Let_def split: option.splits)

lemma th_time_until_next_allowed_snd:
  "snd (th_time_until_next_allowed s u t) =
     (case user_last_message s u of
        None \<Rightarrow> 0
      | Some l \<Rightarrow> max (float_sub (min_interval s) (float_sub t l)) 0)"
  by (simp add: th_time_until_next_allowed_def Let_def split: option.splits)

lemma th_record_message_snd [simp]:
  "snd (th_record_message s u t1 t2) = snd (th_can_send_message s u t1)"
  by (simp add: th_record_message_def split_def Let_def)

lemma th_record_message_fst:
  "fst (th_record_message s u t1 t2) =
     (if snd (th_can_send_message s u t1)
      then s\<lparr>user_last_message := (user_last_message s)(u \<mapsto> t2)\<rparr> else s)"
  by (simp add: th_record_message_def split_def Let_def)

lemma th_step_fst [simp]:
  "fst (th_step s (ThCanSend u t)) = s"
  "fst (th_step s (ThRecord u t1 t2)) = fst (th_record_message s u t1 t2)"
  "fst (th_step s (ThTimeUntil u t)) = s"
  by (simp_all add: split_def Let_def)

lemma th_step_snd [simp]:
  "snd (th_step s (ThCanSend u t)) = Bool (snd (th_can_send_message s u t))"
  "snd (th_step s (ThRecord u t1 t2)) = Bool (snd (th_can_send_message s u t1))"
  "snd (th_step s (ThTimeUntil u t)) = Float (snd (th_time_until_next_allowed s u t))"
  by (simp_all add: split_def Let_def)

declare th_step.simps [simp del]

lemma th_record_message_config [simp]:
  "min_interval (fst (th_record_message s u t1 t2)) = min_interval s"
  by (simp add: th_record_message_fst)

lemma th_step_config [simp]: "min_interval (fst (th_step s c)) = min_interval s"
  by (cases c) simp_all

lemma th_run_config [simp]: "min_interval (th_run s cs) = min_interval s"
  by (induction cs arbitrary: s) simp_all

section \<open>The scenarios of the specification\<close>

text \<open>
  Sliding window with \<open>window_size = 10\<close> and \<open>max_requests = 1\<close>: a message at reading 0 is
  accepted, one at reading 5 is rejected with a wait of 5, one at reading 11 is accepted.
\<close>

lemma scenario_sliding_window:
  "sw_log (sw_init 10 1)
     [SwRecord ''A'' 0, SwRecord ''A'' 5, SwTimeUntil ''A'' 5, SwRecord ''A'' 11] =
   [(SwRecord ''A'' 0, Bool True), (SwRecord ''A'' 5, Bool False),
    (SwTimeUntil ''A'' 5, Float 5), (SwRecord ''A'' 11, Bool True)]"
  by (simp add: sw_record_message_snd sw_record_message_entry sw_time_until_next_allowed_snd
      cleanup_window_entry sw_init_def)

text \<open>
  Throttling with \<open>min_interval = 10\<close>: a message at reading 0 is accepted, one at 9.9 is
  rejected, one at 10 is accepted. The float \<open>9.9\<close> is the double
  \<open>5573204538870989 / 2 ^ 49\<close>.
\<close>

lemma float_sub_9_9:
  "float_sub (5573204538870989 / 2 ^ 49) 0 = 5573204538870989 / 2 ^ 49"
proof -
  have "to_double (5573204538870989 / 2 ^ 49) = of_int 5573204538870989 * 2 ^ 1025 / 2 ^ 1074"
    by (rule to_double_eqI) simp_all
  then show ?thesis by (simp add: float_sub_def)
qed

lemma scenario_throttling:
  "th_log (th_init 10)
     [ThRecord ''B'' 0 0,
      ThRecord ''B'' (5573204538870989 / 2 ^ 49) (5573204538870989 / 2 ^ 49),
      ThRecord ''B'' 10 10] =
   [(ThRecord ''B'' 0 0, Bool True),
    (ThRecord ''B'' (5573204538870989 / 2 ^ 49) (5573204538870989 / 2 ^ 49), Bool False),
    (ThRecord ''B'' 10 10, Bool True)]"
  using float_sub_9_9
  by (simp add: th_can_send_message_snd th_record_message_fst th_init_def float_sub_int)

text \<open>
  An entry whose whole window has expired is removed by the next call for the user.
\<close>

lemma scenario_memory_bound:
  "user_messages (sw_run (sw_init 10 1) [SwRecord ''A'' 0, SwCanSend ''A'' 11]) = Map.empty"
proof (rule ext)
  fix v
  show "user_messages (sw_run (sw_init 10 1) [SwRecord ''A'' 0, SwCanSend ''A'' 11]) v = None"
    by (cases "v = ''A''")
       (simp_all add: sw_record_message_entry cleanup_window_entry sw_init_def)
qed

section \<open>Claims\<close>

subsection \<open>C1: a true \<open>can_send_message\<close> followed by \<open>record_message\<close>\<close>

text \<open>With a cap of at least one the two methods agree, from any state.\<close>

lemma sw_can_send_then_record_accepts:
  assumes "1 \<le> max_requests s" and "snd (sw_can_send_message s u t)"
  shows "snd (sw_record_message (fst (sw_can_send_message s u t)) u t)"
  using assms by (simp add: sw_can_send_message_snd sw_record_message_snd split: option.splits)

text \<open>
  C1. The claim is that, for any configuration, a true answer of \<open>can_send_message\<close> is
  followed by an accepting \<open>record_message\<close> at the same clock reading. On the freshly
  constructed limiter with \<open>max_requests = 0\<close>, \<open>can_send_message\<close> answers true for an
  unknown user (it returns before comparing with the cap), and \<open>record_message\<close> on the
  resulting state, at the same reading, rejects.
\<close>

theorem C1_can_send_true_but_record_rejects:
  "snd (sw_can_send_message (sw_init 10 0) ''A'' 0) = True \<and>
   snd (sw_record_message (fst (sw_can_send_message (sw_init 10 0) ''A'' 0)) ''A'' 0) = False"
  by (simp add: sw_can_send_message_snd sw_record_message_snd cleanup_window_entry sw_init_def)

subsection \<open>C2: a cap of zero\<close>

text \<open>With a cap of zero or less \<open>record_message\<close> rejects, from any state.\<close>

lemma sw_record_rejects_without_cap:
  "max_requests s \<le> 0 \<Longrightarrow> \<not> snd (sw_record_message s u t)"
  by (simp add: sw_record_message_snd split: option.splits)

text \<open>
  With such a cap no timestamp is ever stored, so every entry that exists is an empty deque,
  and \<open>can_send_message\<close>, which deletes it, answers true in every reachable state.
\<close>

lemma cleanup_window_keeps_empty:
  assumes "\<forall>v ts. user_messages s v = Some ts \<longrightarrow> ts = []"
  shows "\<forall>v ts. user_messages (cleanup_window s u t) v = Some ts \<longrightarrow> ts = []"
proof (intro allI impI)
  fix v ts assume h: "user_messages (cleanup_window s u t) v = Some ts"
  show "ts = []"
  proof (cases "v = u")
    case True
    from assms have "user_messages s u = None \<or> user_messages s u = Some []"
      by (cases "user_messages s u") auto
    then have "user_messages (cleanup_window s u t) u = None"
      by (auto simp: cleanup_window_entry)
    with h True show ?thesis by simp
  next
    case False
    with h assms show ?thesis by simp
  qed
qed

lemma sw_step_keeps_empty:
  assumes "max_requests s \<le> 0" and "\<forall>v ts. user_messages s v = Some ts \<longrightarrow> ts = []"
  shows "max_requests (fst (sw_step s c)) \<le> 0 \<and>
         (\<forall>v ts. user_messages (fst (sw_step s c)) v = Some ts \<longrightarrow> ts = [])"
proof (cases c)
  case (SwCanSend u t)
  with assms cleanup_window_keeps_empty [OF assms(2), of u t] show ?thesis
    by simp
next
  case (SwRecord u t)
  have "ts = []" if h: "user_messages (fst (sw_record_message s u t)) v = Some ts" for v ts
  proof (cases "v = u")
    case True
    with h assms(1) cleanup_window_keeps_empty [OF assms(2), of u t] show ?thesis
      by (auto simp: sw_record_message_entry split: option.splits)
  next
    case False
    with h assms(2) show ?thesis by simp
  qed
  with SwRecord assms(1) show ?thesis by simp
next
  case (SwTimeUntil u t)
  with assms cleanup_window_keeps_empty [OF assms(2), of u t] show ?thesis
    by simp
qed

lemma sw_run_keeps_empty:
  assumes "max_requests s \<le> 0" and "\<forall>v ts. user_messages s v = Some ts \<longrightarrow> ts = []"
  shows "max_requests (sw_run s cs) \<le> 0 \<and>
         (\<forall>v ts. user_messages (sw_run s cs) v = Some ts \<longrightarrow> ts = [])"
  using assms
proof (induction cs arbitrary: s)
  case Nil
  then show ?case by simp
next
  case (Cons c cs)
  from sw_step_keeps_empty [OF Cons.prems, of c]
  have "max_requests (fst (sw_step s c)) \<le> 0"
    and "\<forall>v ts. user_messages (fst (sw_step s c)) v = Some ts \<longrightarrow> ts = []"
    by blast+
  from Cons.IH [OF this] show ?case by simp
qed

lemma sw_can_send_true_without_cap:
  assumes "m \<le> 0"
  shows "snd (sw_can_send_message (sw_run (sw_init w m) cs) u t)"
proof -
  have "\<forall>v ts. user_messages (sw_run (sw_init w m) cs) v = Some ts \<longrightarrow> ts = []"
    using sw_run_keeps_empty [of "sw_init w m" cs] assms by (simp add: sw_init_def)
  from cleanup_window_keeps_empty [OF this, of u t] cleanup_window_nonempty [of _ u t]
  have "user_messages (cleanup_window (sw_run (sw_init w m) cs) u t) u = None"
    by (cases "user_messages (cleanup_window (sw_run (sw_init w m) cs) u t) u") fastforce+
  then show ?thesis by (simp add: sw_can_send_message_snd)
qed

text \<open>
  C2. The claim is that with \<open>max_requests = 0\<close> both \<open>record_message\<close> and
  \<open>can_send_message\<close> return false in every reachable state. \<open>record_message\<close> does; but
  \<open>can_send_message\<close> returns true, on the fresh limiter and again after a rejected
  \<open>record_message\<close> of the same user.
\<close>

theorem C2_zero_cap_can_send_returns_true:
  "snd (sw_can_send_message (sw_init 10 0) ''A'' 0) = True \<and>
   snd (sw_record_message (sw_init 10 0) ''A'' 1) = False \<and>
   snd (sw_can_send_message (fst (sw_record_message (sw_init 10 0) ''A'' 1)) ''A'' 2) = True"
  by (simp add: sw_can_send_message_snd sw_record_message_snd sw_record_message_entry
      cleanup_window_entry sw_init_def)

subsection \<open>C3: a rejected \<open>record_message\<close>\<close>

lemma th_record_rejected_unchanged:
  "\<not> snd (th_record_message s u t1 t2) \<Longrightarrow> fst (th_record_message s u t1 t2) = s"
  by (simp add: th_record_message_fst)

text \<open>
  With a cap of at least one a rejection of the sliding-window limiter leaves exactly the
  pruned state: the user still has an entry after the cleanup, and nothing is stored.
\<close>

lemma sw_record_rejected_is_cleanup:
  assumes "1 \<le> max_requests s" and "\<not> snd (sw_record_message s u t)"
  shows "fst (sw_record_message s u t) = cleanup_window s u t"
proof -
  from assms obtain ts where ts: "user_messages (cleanup_window s u t) u = Some ts"
    and full: "\<not> int (length ts) < max_requests s"
    by (auto simp: sw_record_message_snd split: option.splits)
  from ts have "(user_messages (cleanup_window s u t))(u \<mapsto> ts) = user_messages (cleanup_window s u t)"
    by (rule map_upd_triv)
  with ts full show ?thesis
    by (simp add: sw_record_message_def Let_def)
qed

text \<open>
  C3. The claim is that a rejected \<open>record_message\<close> leaves the throttling state as it was
  and the sliding-window state as the prune alone leaves it, creating no entry. With
  \<open>max_requests = 0\<close> the first \<open>record_message\<close> of a user is rejected, the prune alone
  leaves the user without an entry, and the call leaves an entry holding an empty deque.
\<close>

theorem C3_rejection_creates_empty_entry:
  "snd (sw_record_message (sw_init 10 0) ''A'' 0) = False \<and>
   user_messages (cleanup_window (sw_init 10 0) ''A'' 0) ''A'' = None \<and>
   user_messages (fst (sw_record_message (sw_init 10 0) ''A'' 0)) ''A'' = Some []"
  by (simp add: sw_record_message_snd sw_record_message_entry cleanup_window_entry sw_init_def)

subsection \<open>C6: waiting time against \<open>can_send_message\<close>\<close>

text \<open>
  The throttling limiter is consistent, its subtractions rounded as the program rounds them:
  the rounded difference of two doubles is positive exactly when the minuend is the larger.
\<close>

lemma th_wait_zero_when_can_send:
  assumes "snd (th_can_send_message s u t)"
  shows "snd (th_time_until_next_allowed s u t) = 0"
proof (cases "user_last_message s u")
  case None
  then show ?thesis by (simp add: th_time_until_next_allowed_snd)
next
  case (Some l)
  with assms have "min_interval s - float_sub t l \<le> 0"
    by (simp add: th_can_send_message_snd)
  then have "float_sub (min_interval s) (float_sub t l) \<le> 0"
    unfolding float_sub_def [of "min_interval s"] by (rule to_double_nonpos)
  with Some show ?thesis by (simp add: th_time_until_next_allowed_snd)
qed

lemma th_wait_positive_when_cannot_send:
  assumes "to_double (min_interval s) = min_interval s"
    and "\<not> snd (th_can_send_message s u t)"
  shows "0 < snd (th_time_until_next_allowed s u t)"
proof -
  from assms(2) obtain l where l: "user_last_message s u = Some l"
    and lt: "float_sub t l < min_interval s"
    by (auto simp: th_can_send_message_snd split: option.splits)
  from to_double_grid [of "min_interval s"] assms(1)
  obtain i :: int where i: "min_interval s = of_int i / 2 ^ 1074" by auto
  from to_double_grid [of "t - l"]
  obtain j :: int where j: "float_sub t l = of_int j / 2 ^ 1074"
    unfolding float_sub_def by auto
  from i j lt have "0 < to_double (min_interval s - float_sub t l)"
    by (rule to_double_diff_pos)
  then have "0 < float_sub (min_interval s) (float_sub t l)"
    unfolding float_sub_def [of "min_interval s"] .
  with l show ?thesis by (simp add: th_time_until_next_allowed_snd)
qed

lemma th_wait_zero_iff_can_send:
  assumes "to_double (min_interval s) = min_interval s"
  shows "snd (th_can_send_message s u t) \<longleftrightarrow> snd (th_time_until_next_allowed s u t) = 0"
  using th_wait_zero_when_can_send [of s u t] th_wait_positive_when_cannot_send [OF assms, of u t]
  by (cases "snd (th_can_send_message s u t)") auto

lemma sw_wait_zero_when_can_send:
  "snd (sw_can_send_message s u t) \<Longrightarrow> snd (sw_time_until_next_allowed s u t) = Inr 0"
  by (simp add: sw_can_send_message_snd sw_time_until_next_allowed_snd split: option.splits)

text \<open>
  When \<open>can_send_message\<close> is false the wait is the distance of the leftmost remaining
  timestamp from the cutoff: never negative, and zero exactly when that timestamp sits on
  the cutoff.
\<close>

lemma sw_wait_when_cannot_send:
  assumes "\<not> snd (sw_can_send_message s u t)"
  shows "\<exists>e es. user_messages (cleanup_window s u t) u = Some (e # es) \<and>
           t - window_size s \<le> e \<and>
           snd (sw_time_until_next_allowed s u t) = Inr (e - (t - window_size s))"
proof -
  from assms obtain ts where ts: "user_messages (cleanup_window s u t) u = Some ts"
    and full: "\<not> int (length ts) < max_requests s"
    by (auto simp: sw_can_send_message_snd split: option.splits)
  from ts cleanup_window_nonempty [of s u t] obtain e es where c: "ts = e # es"
    by (cases ts) auto
  from ts c have "t - window_size s \<le> e" by (simp add: cleanup_window_head)
  with ts c full show ?thesis
    by (simp add: sw_time_until_next_allowed_snd max_def algebra_simps)
qed

text \<open>
  C6. The claim is that a false \<open>can_send_message\<close> comes with a strictly positive wait.
  With \<open>window_size = 10\<close> and \<open>max_requests = 1\<close>, after a message recorded at reading 0,
  at reading 10 the timestamp 0 is not below the cutoff \<open>10 - 10\<close> and stays, so
  \<open>can_send_message\<close> is false, while the wait \<open>0 + 10 - 10\<close> is zero.
\<close>

theorem C6_cannot_send_with_zero_wait:
  "snd (sw_can_send_message (fst (sw_record_message (sw_init 10 1) ''A'' 0)) ''A'' 10) = False \<and>
   snd (sw_time_until_next_allowed (fst (sw_record_message (sw_init 10 1) ''A'' 0)) ''A'' 10) = Inr 0"
  by (simp add: sw_can_send_message_snd sw_time_until_next_allowed_snd sw_record_message_entry
      cleanup_window_entry sw_init_def)

subsection \<open>C7: no empty entries\<close>

text \<open>
  With a cap of at least one, no operation leaves an empty deque behind: the cleanup deletes
  an emptied entry, and a fresh entry made by \<open>record_message\<close> receives its timestamp.
\<close>

lemma sw_step_no_empty:
  assumes "1 \<le> max_requests s" and "\<forall>v. user_messages s v \<noteq> Some []"
  shows "\<forall>v. user_messages (fst (sw_step s c)) v \<noteq> Some []"
proof
  fix v
  have cl: "user_messages (cleanup_window s u t) v \<noteq> Some []" for u t
    using assms(2) by (cases "v = u") simp_all
  have re: "user_messages (fst (sw_record_message s u t)) v \<noteq> Some []" for u t
  proof (cases "v = u")
    case True
    with assms(1) cleanup_window_nonempty [of s u t] show ?thesis
      by (auto simp: sw_record_message_entry split: option.splits)
  next
    case False
    with assms(2) show ?thesis by simp
  qed
  from cl re show "user_messages (fst (sw_step s c)) v \<noteq> Some []"
    by (cases c) simp_all
qed

lemma sw_run_no_empty:
  assumes "1 \<le> max_requests s" and "\<forall>v. user_messages s v \<noteq> Some []"
  shows "\<forall>v. user_messages (sw_run s cs) v \<noteq> Some []"
  using assms
proof (induction cs arbitrary: s)
  case Nil
  then show ?case by simp
next
  case (Cons c cs)
  from Cons.prems have "1 \<le> max_requests (fst (sw_step s c))" by simp
  moreover from Cons.prems have "\<forall>v. user_messages (fst (sw_step s c)) v \<noteq> Some []"
    by (rule sw_step_no_empty)
  ultimately show ?case using Cons.IH by simp
qed

lemma sw_reachable_no_empty:
  "1 \<le> m \<Longrightarrow> user_messages (sw_run (sw_init w m) cs) v \<noteq> Some []"
  using sw_run_no_empty [of "sw_init w m" cs] by (simp add: sw_init_def)

text \<open>
  C7. The claim is that after any public operation no user is mapped to an empty sequence.
  With \<open>max_requests = 0\<close>, \<open>record_message\<close> stores a fresh empty deque for an unknown
  user before it compares the length with the cap, rejects, and leaves the deque in place.
\<close>

theorem C7_record_leaves_empty_entry:
  "user_messages (sw_run (sw_init 10 0) [SwRecord ''A'' 0]) ''A'' = Some []"
  by (simp add: sw_record_message_entry cleanup_window_entry sw_init_def)

subsection \<open>C8: \<open>can_send_message\<close> and the state\<close>

text \<open>
  C8 as stated fails for the sliding-window limiter: \<open>can_send_message\<close> runs the cleanup.
  After a message recorded at reading 0 with \<open>window_size = 10\<close>, a \<open>can_send_message\<close> at
  reading 11 removes the user's entry.
\<close>

theorem C8_can_send_prunes:
  "user_messages (fst (sw_can_send_message (sw_run (sw_init 10 1) [SwRecord ''A'' 0]) ''A'' 11))
     \<noteq> user_messages (sw_run (sw_init 10 1) [SwRecord ''A'' 0])"
proof
  assume "user_messages (fst (sw_can_send_message (sw_run (sw_init 10 1) [SwRecord ''A'' 0]) ''A'' 11))
     = user_messages (sw_run (sw_init 10 1) [SwRecord ''A'' 0])"
  then have "user_messages (fst (sw_can_send_message (sw_run (sw_init 10 1) [SwRecord ''A'' 0]) ''A'' 11)) ''A''
     = user_messages (sw_run (sw_init 10 1) [SwRecord ''A'' 0]) ''A''"
    by simp
  then show False
    by (simp add: sw_record_message_entry cleanup_window_entry sw_init_def)
qed

text \<open>The cleanup changes nothing when there is nothing to prune.\<close>

lemma cleanup_window_unchanged:
  assumes "user_messages s u = None \<or> (\<exists>e es. user_messages s u = Some (e # es) \<and> t - window_size s \<le> e)"
  shows "cleanup_window s u t = s"
  using assms by (auto simp: cleanup_window_def Let_def map_upd_triv)

text \<open>
  C8, amended. \<open>can_send_message\<close> of the throttling limiter leaves the state as it was.
  \<open>can_send_message\<close> of the sliding-window limiter changes the state only by the prune of
  \<open>_cleanup_window\<close> for the asked user: the entries of all other users are as before, and
  the whole state is as before whenever the user has no entry or the leftmost stored
  timestamp of the user is not below \<open>t - window_size\<close>.
\<close>

theorem C8_can_send_only_prunes:
  "fst (th_can_send_message s' u t) = s' \<and>
   fst (sw_can_send_message s u t) = cleanup_window s u t \<and>
   (\<forall>v. v \<noteq> u \<longrightarrow> user_messages (fst (sw_can_send_message s u t)) v = user_messages s v) \<and>
   (user_messages s u = None \<or> (\<exists>e es. user_messages s u = Some (e # es) \<and> t - window_size s \<le> e)
      \<longrightarrow> fst (sw_can_send_message s u t) = s)"
  by (simp add: cleanup_window_unchanged)

theorem C8_can_send_only_prunes_witness:
  "user_messages (sw_run (sw_init 10 1) [SwRecord ''A'' 0]) ''A'' = Some [0] \<and>
   (5::real) - window_size (sw_run (sw_init 10 1) [SwRecord ''A'' 0]) \<le> 0 \<and>
   fst (sw_can_send_message (sw_run (sw_init 10 1) [SwRecord ''A'' 0]) ''A'' 5) =
     sw_run (sw_init 10 1) [SwRecord ''A'' 0] \<and>
   user_messages (fst (sw_can_send_message (sw_run (sw_init 10 1) [SwRecord ''A'' 0]) ''B'' 5)) ''A'' = Some [0] \<and>
   fst (th_can_send_message (th_run (th_init 10) [ThRecord ''A'' 0 0]) ''A'' 5) =
     th_run (th_init 10) [ThRecord ''A'' 0 0]"
proof -
  have e: "user_messages (sw_run (sw_init 10 1) [SwRecord ''A'' 0]) ''A'' = Some [0]"
    by (simp add: sw_record_message_entry cleanup_window_entry sw_init_def)
  have w: "(5::real) - window_size (sw_run (sw_init 10 1) [SwRecord ''A'' 0]) \<le> 0"
    by (simp add: sw_init_def)
  from e w C8_can_send_only_prunes
    [of "th_run (th_init 10) [ThRecord ''A'' 0 0]" "''A''" 5 "sw_run (sw_init 10 1) [SwRecord ''A'' 0]"]
    C8_can_send_only_prunes
    [of "th_run (th_init 10) [ThRecord ''A'' 0 0]" "''B''" 5 "sw_run (sw_init 10 1) [SwRecord ''A'' 0]"]
  show ?thesis by simp
qed

subsection \<open>C4: the cap on stored timestamps\<close>

text \<open>
  No deque ever holds more timestamps than the cap: the cleanup only shortens a deque, and
  \<open>record_message\<close> appends only below the cap.
\<close>

lemma cleanup_window_within_cap:
  assumes "\<forall>v ts. user_messages s v = Some ts \<longrightarrow> int (length ts) \<le> k"
  shows "\<forall>v ts. user_messages (cleanup_window s u t) v = Some ts \<longrightarrow> int (length ts) \<le> k"
proof (intro allI impI)
  fix v ts assume h: "user_messages (cleanup_window s u t) v = Some ts"
  show "int (length ts) \<le> k"
  proof (cases "v = u")
    case True
    with h obtain ts0 where ts0: "user_messages s u = Some ts0"
      and ts: "ts = dropWhile (\<lambda>x. x < t - window_size s) ts0"
      by (auto simp: cleanup_window_entry split: option.splits if_splits)
    from ts have "length ts \<le> length ts0" by (simp add: length_dropWhile_le)
    moreover from ts0 assms have "int (length ts0) \<le> k" by blast
    ultimately show ?thesis by simp
  next
    case False
    with h assms show ?thesis by simp
  qed
qed

lemma sw_record_message_within_cap:
  assumes "0 \<le> max_requests s"
    and "\<forall>v ts. user_messages s v = Some ts \<longrightarrow> int (length ts) \<le> max_requests s"
  shows "\<forall>v ts. user_messages (fst (sw_record_message s u t)) v = Some ts \<longrightarrow>
           int (length ts) \<le> max_requests s"
proof (intro allI impI)
  fix v ts assume h: "user_messages (fst (sw_record_message s u t)) v = Some ts"
  note cl = cleanup_window_within_cap [OF assms(2), of u t, rule_format]
  show "int (length ts) \<le> max_requests s"
  proof (cases "v = u")
    case True
    show ?thesis
    proof (cases "user_messages (cleanup_window s u t) u")
      case None
      with h True assms(1) show ?thesis
        by (auto simp: sw_record_message_entry split: if_splits)
    next
      case (Some ts0)
      with cl have "int (length ts0) \<le> max_requests s" by blast
      with h True Some show ?thesis
        by (auto simp: sw_record_message_entry split: if_splits)
    qed
  next
    case False
    with h assms(2) show ?thesis by simp
  qed
qed

lemma sw_step_within_cap:
  assumes "0 \<le> max_requests s"
    and "\<forall>v ts. user_messages s v = Some ts \<longrightarrow> int (length ts) \<le> max_requests s"
  shows "\<forall>v ts. user_messages (fst (sw_step s c)) v = Some ts \<longrightarrow>
           int (length ts) \<le> max_requests s"
proof (cases c)
  case (SwCanSend u t)
  with cleanup_window_within_cap [OF assms(2), of u t] show ?thesis by simp
next
  case (SwRecord u t)
  with sw_record_message_within_cap [OF assms, of u t] show ?thesis by simp
next
  case (SwTimeUntil u t)
  with cleanup_window_within_cap [OF assms(2), of u t] show ?thesis by simp
qed

lemma sw_run_within_cap:
  assumes "0 \<le> max_requests s"
    and "\<forall>v ts. user_messages s v = Some ts \<longrightarrow> int (length ts) \<le> max_requests s"
  shows "\<forall>v ts. user_messages (sw_run s cs) v = Some ts \<longrightarrow>
           int (length ts) \<le> max_requests s"
  using assms
proof (induction cs arbitrary: s)
  case Nil
  then show ?case by simp
next
  case (Cons c cs)
  from Cons.prems(1) have "0 \<le> max_requests (fst (sw_step s c))" by simp
  moreover from sw_step_within_cap [OF Cons.prems, of c]
  have "\<forall>v ts. user_messages (fst (sw_step s c)) v = Some ts \<longrightarrow>
          int (length ts) \<le> max_requests (fst (sw_step s c))"
    by simp
  ultimately show ?case using Cons.IH [of "fst (sw_step s c)"] by simp
qed

lemma sw_reachable_within_cap:
  assumes "0 \<le> m" and "user_messages (sw_run (sw_init w m) cs) u = Some ts"
  shows "int (length ts) \<le> m"
  using sw_run_within_cap [of "sw_init w m" cs] assms by (simp add: sw_init_def)

text \<open>
  C4. With \<open>max_requests \<ge> 1\<close>, after any sequence of calls whose clock readings do not
  decrease, for every user and every interval \<open>[a - window_size, a]\<close>, at most
  \<open>max_requests\<close> of the user's stored timestamps lie in the interval.
\<close>

theorem C4_cap_invariant:
  assumes "1 \<le> m" and "sorted (map sw_time cs)"
    and "user_messages (sw_run (sw_init w m) cs) u = Some ts"
  shows "int (length (filter (\<lambda>x. a - w \<le> x \<and> x \<le> a) ts)) \<le> m"
proof -
  from assms(1,3) have "int (length ts) \<le> m"
    by (intro sw_reachable_within_cap [of m w cs u ts]) simp_all
  moreover have "length (filter (\<lambda>x. a - w \<le> x \<and> x \<le> a) ts) \<le> length ts"
    by (rule length_filter_le)
  ultimately show ?thesis by linarith
qed

theorem C4_cap_invariant_witness:
  "(1::int) \<le> 2 \<and>
   sorted (map sw_time [SwRecord ''A'' 0, SwRecord ''A'' 3, SwRecord ''A'' 5, SwCanSend ''A'' 12]) \<and>
   user_messages (sw_run (sw_init 10 2)
      [SwRecord ''A'' 0, SwRecord ''A'' 3, SwRecord ''A'' 5, SwCanSend ''A'' 12]) ''A'' = Some [3] \<and>
   int (length (filter (\<lambda>x. 12 - 10 \<le> x \<and> x \<le> 12) [3::real])) \<le> 2"
proof -
  have m: "(1::int) \<le> 2" by simp
  have s: "sorted (map sw_time [SwRecord ''A'' 0, SwRecord ''A'' 3, SwRecord ''A'' 5, SwCanSend ''A'' 12])"
    by simp
  have e: "user_messages (sw_run (sw_init 10 2)
      [SwRecord ''A'' 0, SwRecord ''A'' 3, SwRecord ''A'' 5, SwCanSend ''A'' 12]) ''A'' = Some [3]"
    by (simp add: sw_record_message_entry cleanup_window_entry sw_init_def)
  from C4_cap_invariant [OF m s e, of 12] m s e show ?thesis by simp
qed

subsection \<open>C5: spacing of accepted messages\<close>







subsection \<open>C10: a non-positive minimal interval\<close>

text \<open>
  The generalisation for the induction: from a state whose stored timestamps are not after
  any clock reading still to come, every admission question is answered true.
\<close>

lemma th_all_admitted_from:
  assumes "min_interval s \<le> 0" and "sorted (concat (map th_clock cs))"
    and "\<forall>v l. user_last_message s v = Some l \<longrightarrow> (\<forall>t \<in> set (concat (map th_clock cs)). l \<le> t)"
  shows "list_all th_admits (th_log s cs)"
  using assms
proof (induction cs arbitrary: s)
  case Nil
  then show ?case by simp
next
  case (Cons c cs)
  from Cons.prems(2) have rest: "sorted (concat (map th_clock cs))"
    by (simp add: sorted_append)
  have old: "l \<le> t" if "user_last_message s v = Some l" "t \<in> set (th_clock c) \<union> set (concat (map th_clock cs))"
    for v l t using Cons.prems(3) that by auto
  have ok: "snd (th_can_send_message s v (hd (th_clock c)))" for v
  proof (cases "user_last_message s v")
    case None
    then show ?thesis by (simp add: th_can_send_message_snd)
  next
    case (Some l)
    have "hd (th_clock c) \<in> set (th_clock c)" by (cases c) simp_all
    with old [OF Some] have "l \<le> hd (th_clock c)" by blast
    then have "0 \<le> float_sub (hd (th_clock c)) l" by (rule float_sub_nonneg)
    with Cons.prems(1) Some show ?thesis by (simp add: th_can_send_message_snd)
  qed
  have adm: "th_admits (c, snd (th_step s c))"
    using ok by (cases c) simp_all
  have inv: "\<forall>v l. user_last_message (fst (th_step s c)) v = Some l \<longrightarrow>
               (\<forall>t \<in> set (concat (map th_clock cs)). l \<le> t)"
  proof (intro allI impI ballI)
    fix v l t
    assume h: "user_last_message (fst (th_step s c)) v = Some l"
      and t: "t \<in> set (concat (map th_clock cs))"
    show "l \<le> t"
    proof (cases "user_last_message s v = Some l")
      case True
      with old t show ?thesis by blast
    next
      case False
      with h obtain t1 where c: "c = ThRecord v t1 l"
        by (cases c) (auto simp: th_record_message_fst split: if_splits)
      with Cons.prems(2) t show ?thesis by (auto simp: sorted_append)
    qed
  qed
  from Cons.prems(1) have "min_interval (fst (th_step s c)) \<le> 0" by simp
  from Cons.IH [OF this rest inv] adm show ?case by simp
qed

text \<open>
  C10. With \<open>min_interval \<le> 0\<close>, along every sequence of calls whose clock readings do not
  decrease, starting from the constructed limiter, every \<open>can_send_message\<close> and every
  \<open>record_message\<close> returns true.
\<close>

theorem C10_nonpositive_interval_admits_all:
  assumes "mi \<le> 0" and "sorted (concat (map th_clock cs))"
  shows "list_all th_admits (th_log (th_init mi) cs)"
  using assms by (intro th_all_admitted_from) (simp_all add: th_init_def)

theorem C10_nonpositive_interval_admits_all_witness:
  "(0::real) \<le> 0 \<and>
   sorted (concat (map th_clock
      [ThRecord ''A'' 1 1, ThCanSend ''A'' 1, ThRecord ''A'' 1 2, ThRecord ''B'' 2 2])) \<and>
   th_log (th_init 0) [ThRecord ''A'' 1 1, ThCanSend ''A'' 1, ThRecord ''A'' 1 2, ThRecord ''B'' 2 2] =
     [(ThRecord ''A'' 1 1, Bool True), (ThCanSend ''A'' 1, Bool True),
      (ThRecord ''A'' 1 2, Bool True), (ThRecord ''B'' 2 2, Bool True)] \<and>
   list_all th_admits (th_log (th_init 0)
      [ThRecord ''A'' 1 1, ThCanSend ''A'' 1, ThRecord ''A'' 1 2, ThRecord ''B'' 2 2])"
proof -
  have m: "(0::real) \<le> 0" by simp
  have s: "sorted (concat (map th_clock
      [ThRecord ''A'' 1 1, ThCanSend ''A'' 1, ThRecord ''A'' 1 2, ThRecord ''B'' 2 2]))"
    by simp
  have l: "th_log (th_init 0) [ThRecord ''A'' 1 1, ThCanSend ''A'' 1, ThRecord ''A'' 1 2, ThRecord ''B'' 2 2] =
     [(ThRecord ''A'' 1 1, Bool True), (ThCanSend ''A'' 1, Bool True),
      (ThRecord ''A'' 1 2, Bool True), (ThRecord ''B'' 2 2, Bool True)]"
    by (simp add: th_can_send_message_snd th_record_message_fst th_init_def float_sub_int)
  from C10_nonpositive_interval_admits_all [OF m s] m s l show ?thesis by simp
qed

subsection \<open>C9: independence of identities\<close>

text \<open>A call for one user leaves the entry of every other user as it was.\<close>

lemma sw_step_other:
  "sw_user c \<noteq> y \<Longrightarrow> user_messages (fst (sw_step s c)) y = user_messages s y"
  by (cases c) simp_all

lemma th_step_other:
  "th_user c \<noteq> y \<Longrightarrow> user_last_message (fst (th_step s c)) y = user_last_message s y"
  by (cases c) (simp_all add: th_record_message_fst)

text \<open>
  The result of a call for a user, and the user's entry afterwards, depend only on the
  configuration and on the user's entry before.
\<close>

lemma sw_step_same:
  assumes "window_size s = window_size s'" and "max_requests s = max_requests s'"
    and "user_messages s (sw_user c) = user_messages s' (sw_user c)"
  shows "snd (sw_step s c) = snd (sw_step s' c) \<and>
         user_messages (fst (sw_step s c)) (sw_user c) = user_messages (fst (sw_step s' c)) (sw_user c)"
proof -
  have cl: "user_messages (cleanup_window s u t) u = user_messages (cleanup_window s' u t) u"
    if "user_messages s u = user_messages s' u" for u t
    using that assms(1) by (simp add: cleanup_window_entry split: option.splits)
  show ?thesis
  proof (cases c)
    case (SwCanSend u t)
    with assms cl [of u t] show ?thesis
      by (simp add: sw_can_send_message_snd split: option.splits)
  next
    case (SwRecord u t)
    with assms cl [of u t] show ?thesis
      by (simp add: sw_record_message_snd sw_record_message_entry split: option.splits)
  next
    case (SwTimeUntil u t)
    with assms cl [of u t] show ?thesis
      by (simp add: sw_time_until_next_allowed_snd split: option.splits list.splits)
  qed
qed

lemma th_step_same:
  assumes "min_interval s = min_interval s'"
    and "user_last_message s (th_user c) = user_last_message s' (th_user c)"
  shows "snd (th_step s c) = snd (th_step s' c) \<and>
         user_last_message (fst (th_step s c)) (th_user c) =
           user_last_message (fst (th_step s' c)) (th_user c)"
  using assms
  by (cases c)
     (simp_all add: th_can_send_message_snd th_time_until_next_allowed_snd th_record_message_fst
        split: option.splits)

lemma sw_log_independent:
  assumes "window_size s = window_size s'" and "max_requests s = max_requests s'"
    and "user_messages s y = user_messages s' y"
  shows "filter (\<lambda>(c, r). sw_user c = y) (sw_log s cs) = sw_log s' (filter (\<lambda>c. sw_user c = y) cs) \<and>
         user_messages (sw_run s cs) y = user_messages (sw_run s' (filter (\<lambda>c. sw_user c = y) cs)) y"
  using assms
proof (induction cs arbitrary: s s')
  case Nil
  then show ?case by simp
next
  case (Cons c cs)
  show ?case
  proof (cases "sw_user c = y")
    case True
    with Cons.prems sw_step_same [of s s' c]
    have r: "snd (sw_step s c) = snd (sw_step s' c)"
      and e: "user_messages (fst (sw_step s c)) y = user_messages (fst (sw_step s' c)) y"
      by simp_all
    from Cons.prems have "window_size (fst (sw_step s c)) = window_size (fst (sw_step s' c))"
      and "max_requests (fst (sw_step s c)) = max_requests (fst (sw_step s' c))"
      by simp_all
    from Cons.IH [OF this e] True r show ?thesis by simp
  next
    case False
    with Cons.prems have e: "user_messages (fst (sw_step s c)) y = user_messages s' y"
      by (simp add: sw_step_other)
    from Cons.prems have "window_size (fst (sw_step s c)) = window_size s'"
      and "max_requests (fst (sw_step s c)) = max_requests s'"
      by simp_all
    from Cons.IH [OF this e] False show ?thesis by simp
  qed
qed

lemma th_log_independent:
  assumes "min_interval s = min_interval s'"
    and "user_last_message s y = user_last_message s' y"
  shows "filter (\<lambda>(c, r). th_user c = y) (th_log s cs) = th_log s' (filter (\<lambda>c. th_user c = y) cs) \<and>
         user_last_message (th_run s cs) y =
           user_last_message (th_run s' (filter (\<lambda>c. th_user c = y) cs)) y"
  using assms
proof (induction cs arbitrary: s s')
  case Nil
  then show ?case by simp
next
  case (Cons c cs)
  show ?case
  proof (cases "th_user c = y")
    case True
    with Cons.prems th_step_same [of s s' c]
    have r: "snd (th_step s c) = snd (th_step s' c)"
      and e: "user_last_message (fst (th_step s c)) y = user_last_message (fst (th_step s' c)) y"
      by simp_all
    from Cons.prems have "min_interval (fst (th_step s c)) = min_interval (fst (th_step s' c))"
      by simp
    from Cons.IH [OF this e] True r show ?thesis by simp
  next
    case False
    with Cons.prems have e: "user_last_message (fst (th_step s c)) y = user_last_message s' y"
      by (simp add: th_step_other)
    from Cons.prems have "min_interval (fst (th_step s c)) = min_interval s'"
      by simp
    from Cons.IH [OF this e] False show ?thesis by simp
  qed
qed

text \<open>
  C9. For both limiters: a call for a user \<open>X\<close> leaves the stored entry of every other user
  \<open>Y\<close> unchanged; and in any sequence of calls, from any state, the results of the calls for
  \<open>Y\<close> and the final entry of \<open>Y\<close> are those of the sequence with the calls of all other
  users removed.
\<close>

theorem C9_identity_independence:
  "(sw_user c \<noteq> y \<longrightarrow> user_messages (fst (sw_step s c)) y = user_messages s y) \<and>
   (th_user c' \<noteq> y \<longrightarrow> user_last_message (fst (th_step s' c')) y = user_last_message s' y) \<and>
   filter (\<lambda>(c, r). sw_user c = y) (sw_log s cs) = sw_log s (filter (\<lambda>c. sw_user c = y) cs) \<and>
   user_messages (sw_run s cs) y = user_messages (sw_run s (filter (\<lambda>c. sw_user c = y) cs)) y \<and>
   filter (\<lambda>(c, r). th_user c = y) (th_log s' cs') = th_log s' (filter (\<lambda>c. th_user c = y) cs') \<and>
   user_last_message (th_run s' cs') y =
     user_last_message (th_run s' (filter (\<lambda>c. th_user c = y) cs')) y"
  using sw_log_independent [of s s y cs] th_log_independent [of s' s' y cs']
  by (simp add: sw_step_other th_step_other)

theorem C9_identity_independence_witness:
  "sw_user (SwRecord ''X'' 0) \<noteq> ''Y'' \<and>
   user_messages (fst (sw_step (sw_init 10 1) (SwRecord ''X'' 0))) ''Y'' = None \<and>
   th_user (ThRecord ''X'' 0 0) \<noteq> ''Y'' \<and>
   user_last_message (fst (th_step (th_init 10) (ThRecord ''X'' 0 0))) ''Y'' = None \<and>
   filter (\<lambda>(c, r). sw_user c = ''Y'')
     (sw_log (sw_init 10 1) [SwRecord ''X'' 0, SwRecord ''X'' 1, SwRecord ''Y'' 2, SwRecord ''Y'' 3]) =
     [(SwRecord ''Y'' 2, Bool True), (SwRecord ''Y'' 3, Bool False)] \<and>
   filter (\<lambda>(c, r). th_user c = ''Y'')
     (th_log (th_init 10) [ThRecord ''X'' 0 0, ThRecord ''X'' 1 1, ThRecord ''Y'' 2 2, ThRecord ''Y'' 3 3]) =
     [(ThRecord ''Y'' 2 2, Bool True), (ThRecord ''Y'' 3 3, Bool False)]"
proof -
  have a: "sw_user (SwRecord ''X'' 0) \<noteq> ''Y''" by simp
  have b: "th_user (ThRecord ''X'' 0 0) \<noteq> ''Y''" by simp
  have c: "sw_log (sw_init 10 1) [SwRecord ''Y'' 2, SwRecord ''Y'' 3] =
     [(SwRecord ''Y'' 2, Bool True), (SwRecord ''Y'' 3, Bool False)]"
    by (simp add: sw_record_message_snd sw_record_message_entry cleanup_window_entry sw_init_def)
  have d: "th_log (th_init 10) [ThRecord ''Y'' 2 2, ThRecord ''Y'' 3 3] =
     [(ThRecord ''Y'' 2 2, Bool True), (ThRecord ''Y'' 3 3, Bool False)]"
    by (simp add: th_can_send_message_snd th_record_message_fst th_init_def float_sub_int)
  from C9_identity_independence
    [of "SwRecord ''X'' 0" "''Y''" "sw_init 10 1" "ThRecord ''X'' 0 0" "th_init 10"
        "[SwRecord ''X'' 0, SwRecord ''X'' 1, SwRecord ''Y'' 2, SwRecord ''Y'' 3]"
        "[ThRecord ''X'' 0 0, ThRecord ''X'' 1 1, ThRecord ''Y'' 2 2, ThRecord ''Y'' 3 3]"]
    a b c d
  show ?thesis by (simp add: sw_init_def th_init_def)
qed

end
